theory Spec2Isabelle
  imports Complex_Main "HOL-Library.Stream"
begin

section \<open>Python values used by the program\<close>

text \<open>
  The exceptions the modelled code can raise. All of them are subclasses of Python's
  \<^verbatim>\<open>Exception\<close>, so an \<^verbatim>\<open>except Exception\<close> clause catches each of them.
\<close>

datatype py_exception =
  TypeError | KeyError | ValueError | AttributeError | UnboundLocalError | IndexError

text \<open>
  \<^verbatim>\<open>int(x)\<close> on a float truncates towards zero. The floats returned by
  \<^verbatim>\<open>time.time()\<close> are modelled as real numbers: rounding of the floating-point
  division and product is outside the model.
\<close>

definition py_int :: "real \<Rightarrow> int" where
  "py_int x = (if x < 0 then \<lceil>x\<rceil> else \<lfloor>x\<rfloor>)"

text \<open>
  Slices. An index of a slice is clamped into the list and a negative index counts from
  the end; \<^verbatim>\<open>xs[k:]\<close> keeps the part from the clamped index on,
  \<^verbatim>\<open>xs[0:n]\<close> the part before it, and \<^verbatim>\<open>del xs[0:n]\<close> removes that part.
\<close>

definition py_slice_index :: "'a list \<Rightarrow> int \<Rightarrow> nat" where
  "py_slice_index xs k =
     (let n = int (length xs) in nat (if k < 0 then max 0 (n + k) else min k n))"

definition py_slice_from :: "'a list \<Rightarrow> int \<Rightarrow> 'a list" where
  "py_slice_from xs k = drop (py_slice_index xs k) xs"



section \<open>Global constants\<close>

text \<open>
  The tuning constants at the top of the script. The script invites its user to edit
  them, so the loop below takes them as a configuration; \<open>source_config\<close> holds the
  values the source ships with.
\<close>

record config =
  G_MESSAGE_RATE :: real
  G_MAX_QUEUE_LENGTH :: int
  G_MAX_WORKERS :: int
  G_MAX_TIME_TO_WAIT_FOR_LOGIN :: real

definition source_config :: config where
  "source_config = \<lparr> G_MESSAGE_RATE = 1 / 2, G_MAX_QUEUE_LENGTH = 20,
     G_MAX_WORKERS = 100, G_MAX_TIME_TO_WAIT_FOR_LOGIN = 3 \<rparr>"

section \<open>The scheduling loop \<open>f_mainLoop\<close>\<close>

text \<open>
  One pass of the \<^verbatim>\<open>while True\<close> body is split along the source's own blocks:
  pruning of finished tasks, the enqueue with truncation, the drain, and the dispatch
  pass. The local variables \<open>l_activeTasks\<close>, \<open>l_messageQueue\<close> and \<open>last_time\<close>
  are passed in and returned. \<open>last_time\<close> is not bound before its first assignment,
  which is \<open>None\<close> here; reading it then raises \<^verbatim>\<open>UnboundLocalError\<close>.
\<close>

text \<open>
  \<^verbatim>\<open>l_activeTasks = [i_task for i_task in l_activeTasks if not i_task.done()]\<close>;
  what \<^verbatim>\<open>done()\<close> answers at this moment is given by the predicate \<open>done\<close>.
\<close>

definition prune :: "('t \<Rightarrow> bool) \<Rightarrow> 't list \<Rightarrow> 't list" where
  "prune done l_activeTasks = filter (\<lambda>i_task. \<not> done i_task) l_activeTasks"

text \<open>
  \<^verbatim>\<open>if l_newMessages: l_messageQueue += l_newMessages;
  l_messageQueue = l_messageQueue[-G_MAX_QUEUE_LENGTH:]\<close>
\<close>

definition enqueue :: "config \<Rightarrow> 'm list \<Rightarrow> 'm list \<Rightarrow> 'm list" where
  "enqueue cfg l_newMessages l_messageQueue =
     (if l_newMessages \<noteq> []
      then py_slice_from (l_messageQueue @ l_newMessages) (- G_MAX_QUEUE_LENGTH cfg)
      else l_messageQueue)"

text \<open>
  The drain block. \<open>t1\<close> is the first reading of \<^verbatim>\<open>time.time()\<close> in the branch
  taken and \<open>t2\<close> the second one, which only the releasing branch makes. The result is
  \<open>(l_messagesToHandle, l_messageQueue, last_time)\<close>.
\<close>

definition release_fraction :: "config \<Rightarrow> real \<Rightarrow> real option \<Rightarrow> py_exception + real" where
  "release_fraction cfg t1 last_time =
     (if G_MESSAGE_RATE cfg = 0 then Inr 1
      else case last_time of
             None \<Rightarrow> Inl UnboundLocalError
           | Some l \<Rightarrow> Inr ((t1 - l) / G_MESSAGE_RATE cfg))"


text \<open>
  The dispatch pass over \<open>l_messagesToHandle\<close>. \<open>thread_pool.submit\<close> returns a
  future for the message, written \<open>Future message\<close>; the warning printed in the other
  branch is recorded with the three numbers it prints.
\<close>

datatype 'm future = Future 'm

datatype warning = Warning nat int nat

fun dispatch ::
  "config \<Rightarrow> nat \<Rightarrow> 'm list \<Rightarrow> 'm future list \<times> warning list
     \<Rightarrow> 'm future list \<times> warning list" where
  "dispatch cfg qlen [] (l_activeTasks, out) = (l_activeTasks, out)"
| "dispatch cfg qlen (message # rest) (l_activeTasks, out) =
     (if int (length l_activeTasks) \<le> G_MAX_WORKERS cfg
      then dispatch cfg qlen rest (l_activeTasks @ [Future message], out)
      else dispatch cfg qlen rest
             (l_activeTasks, out @ [Warning (length l_activeTasks) (G_MAX_WORKERS cfg) qlen]))"


section \<open>The frame pattern\<close>

text \<open>
  Received data is a byte string, modelled as a list of 8-bit characters.
  \<^verbatim>\<open>bytes.decode(errors='replace')\<close> never raises and is the identity on ASCII; the
  model keeps the bytes as they are, so a decoded field is the list of its bytes.
\<close>

type_synonym bytes = "char list"

definition CR :: char where "CR = CHR 0x0D"

definition LF :: char where "LF = CHR 0x0A"

definition CRLF :: bytes where "CRLF = [CR, LF]"

text \<open>
  The constructs of \<^verbatim>\<open>re\<close> patterns that \<open>re_prog\<close> is built from: \<^verbatim>\<open>^\<close>
  (under \<^verbatim>\<open>re.MULTILINE\<close>), a literal byte, the repetitions \<^verbatim>\<open>[^...]*\<close> and
  \<^verbatim>\<open>[^...]+\<close> of a negated class, \<^verbatim>\<open>(?:...)?\<close>, a numbered capturing group,
  concatenation and alternation.
\<close>

datatype regex =
    Bol
  | Lit char
  | StarNot "char list"
  | PlusNot "char list"
  | Opt regex
  | Grp nat regex
  | Seq regex regex
  | Alt regex regex

text \<open>
  \<^verbatim>\<open>^(?::(?:([^ !\r\n]+)![^ \r\n]*|[^ \r\n]*) )?([^ \r\n]+)(?: ([^:\r\n]*))?(?: :([^\r\n]*))?\r\n\<close>
\<close>

definition re_prog :: regex where
  "re_prog =
     Seq Bol
    (Seq (Opt (Seq (Lit CHR '':'')
              (Seq (Alt (Seq (Grp 1 (PlusNot [CHR '' '', CHR ''!'', CR, LF]))
                        (Seq (Lit CHR ''!'') (StarNot [CHR '' '', CR, LF])))
                        (StarNot [CHR '' '', CR, LF]))
                   (Lit CHR '' ''))))
    (Seq (Grp 2 (PlusNot [CHR '' '', CR, LF]))
    (Seq (Opt (Seq (Lit CHR '' '') (Grp 3 (StarNot [CHR '':'', CR, LF]))))
    (Seq (Opt (Seq (Lit CHR '' '') (Seq (Lit CHR '':'') (Grp 4 (StarNot [CR, LF])))))
    (Seq (Lit CR) (Lit LF))))))"

text \<open>
  Matching is the backtracking search of \<^verbatim>\<open>re\<close>: alternatives are tried from left to
  right, an optional part is tried before it is skipped, and a repetition takes as many
  bytes as it can and gives them back one at a time. The matcher is written with a
  continuation \<open>k\<close> for the rest of the pattern; it gets the position reached and the
  spans of the groups that took part. A group that took no part in the match has no span.
\<close>

type_synonym groups = "nat \<Rightarrow> (nat \<times> nat) option"

definition run_not :: "bytes \<Rightarrow> char list \<Rightarrow> nat \<Rightarrow> nat" where
  "run_not s cs i = length (takeWhile (\<lambda>c. c \<notin> set cs) (drop i s))"

primrec give_back :: "(nat \<Rightarrow> 'r option) \<Rightarrow> nat \<Rightarrow> nat \<Rightarrow> nat \<Rightarrow> 'r option" where
  "give_back k i lo 0 = (if lo = 0 then k i else None)"
| "give_back k i lo (Suc n) =
     (if Suc n < lo then None
      else case k (i + Suc n) of Some r \<Rightarrow> Some r | None \<Rightarrow> give_back k i lo n)"

fun rmatch ::
  "bytes \<Rightarrow> regex \<Rightarrow> (nat \<Rightarrow> groups \<Rightarrow> 'r option) \<Rightarrow> nat \<Rightarrow> groups \<Rightarrow> 'r option" where
  "rmatch s Bol k i g = (if i = 0 then k i g else if s ! (i - 1) = LF then k i g else None)"
| "rmatch s (Lit c) k i g = (if i < length s then (if s ! i = c then k (Suc i) g else None) else None)"
| "rmatch s (StarNot cs) k i g = give_back (\<lambda>j. k j g) i 0 (run_not s cs i)"
| "rmatch s (PlusNot cs) k i g = give_back (\<lambda>j. k j g) i 1 (run_not s cs i)"
| "rmatch s (Opt r) k i g =
     (case rmatch s r k i g of Some x \<Rightarrow> Some x | None \<Rightarrow> k i g)"
| "rmatch s (Grp n r) k i g = rmatch s r (\<lambda>j g'. k j (g'(n := Some (i, j)))) i g"
| "rmatch s (Seq a b) k i g = rmatch s a (\<lambda>j g'. rmatch s b k j g') i g"
| "rmatch s (Alt a b) k i g =
     (case rmatch s a k i g of Some x \<Rightarrow> Some x | None \<Rightarrow> rmatch s b k i g)"

text \<open>
  A match object: where the match starts and ends, and its groups.
  \<^verbatim>\<open>finditer\<close> scans the buffer from the left; after a match it goes on where the
  match ended. (The pattern ends in \<^verbatim>\<open>\r\n\<close>, so a match is never empty.) A start
  position is a position \<open>i \<le> length s\<close>; \<open>^\<close> reads the byte before it only when
  \<open>i > 0\<close>.
\<close>

record match =
  m_start :: nat
  m_end :: nat
  m_groups :: groups

definition match_at :: "bytes \<Rightarrow> nat \<Rightarrow> match option" where
  "match_at s i =
     rmatch s re_prog (\<lambda>j g. Some \<lparr> m_start = i, m_end = j, m_groups = g \<rparr>) i (\<lambda>n. None)"

function finditer_from :: "bytes \<Rightarrow> nat \<Rightarrow> match list" where
  "finditer_from s i =
     (if length s < i then []
      else case match_at s i of
             None \<Rightarrow> finditer_from s (Suc i)
           | Some m \<Rightarrow> m # finditer_from s (max (m_end m) (Suc i)))"
  by pat_completeness auto
termination
  by (relation "measure (\<lambda>(s, i). Suc (length s) - i)") auto

declare finditer_from.simps [simp del]

definition finditer :: "bytes \<Rightarrow> match list" where
  "finditer s = finditer_from s 0"

text \<open>\<^verbatim>\<open>m.group(n) or b''\<close>\<close>

definition group_or_empty :: "bytes \<Rightarrow> match \<Rightarrow> nat \<Rightarrow> bytes" where
  "group_or_empty s m n =
     (case m_groups m n of None \<Rightarrow> [] | Some (a, b) \<Rightarrow> take (b - a) (drop a s))"

text \<open>\<^verbatim>\<open>b.split(b' ')\<close>: the pieces between single spaces; never the empty list.\<close>

fun split_sp :: "bytes \<Rightarrow> bytes list" where
  "split_sp [] = [[]]"
| "split_sp (c # cs) =
     (if c = CHR '' '' then [] # split_sp cs
      else case split_sp cs of w # ws \<Rightarrow> (c # w) # ws | [] \<Rightarrow> [[c]])"

text \<open>A parsed frame, the dictionary built for each match.\<close>

record irc_message =
  name :: string
  command :: string
  params :: "string list"
  trailing :: string

definition frame_of :: "bytes \<Rightarrow> match \<Rightarrow> irc_message" where
  "frame_of s m =
     \<lparr> name = group_or_empty s m 1, command = group_or_empty s m 2,
       params = split_sp (group_or_empty s m 3), trailing = group_or_empty s m 4 \<rparr>"

section \<open>Actions and commands\<close>

text \<open>
  Text is modelled as a list of 8-bit characters. \<^verbatim>\<open>str.lower()\<close> is modelled on
  the ASCII letters, which it maps to their lower-case forms; every other character is
  left as it is (the Unicode case tables are outside the model).
\<close>

definition lower_char :: "char \<Rightarrow> char" where
  "lower_char c =
     (case map_of (zip ''ABCDEFGHIJKLMNOPQRSTUVWXYZ'' ''abcdefghijklmnopqrstuvwxyz'') c of
        Some l \<Rightarrow> l
      | None \<Rightarrow> c)"

definition py_lower :: "string \<Rightarrow> string" where
  "py_lower s = map lower_char s"

text \<open>
  What the program does to the outside world is recorded as a list of events, in the
  order of the calls: one constructor for each \<^verbatim>\<open>print\<close> statement of the modelled
  functions (with the values it formats), one for the \<^verbatim>\<open>SendInput\<close> call of
  \<open>f_holdKey\<close> and \<open>f_releaseKey\<close> (scan code and flags), one for
  \<^verbatim>\<open>time.sleep\<close>, one for each \<^verbatim>\<open>pydirectinput\<close> call and one for each call
  on the socket other than \<^verbatim>\<open>recv\<close>. These library calls are taken to return
  normally, except \<^verbatim>\<open>time.sleep\<close>, which raises \<^verbatim>\<open>ValueError\<close> on a negative
  length. A computation yields the events it caused and the exception it ended with, if
  any.
\<close>

datatype event =
    Print_GotMessage string string
  | Print_CommandReceived
  | Print_Exception py_exception
  | SendInput int int
  | Sleep real
  | LeftClick "int option" "int option"
  | RightClick "int option" "int option"
  | MiddleClick "int option" "int option"
  | MoveRel int int int
  | Print_Connecting
  | Print_Connected
  | Print_UnexpectedError
  | Print_ClosedByTwitch
  | Print_Desync
  | Print_LoggedIn string
  | Print_Joined string
  | Print_Notice "string list" string
  | Print_Unhandled irc_message
  | Print_NoResponse
  | Sock_Close
  | Sock_Connect string nat
  | Sock_Send bytes
  | Sock_SetTimeout real

type_synonym outcome = "event list \<times> py_exception option"

text \<open>\<open>G_KEY_DICTIONARY\<close>, in the order of the source.\<close>

definition G_KEY_DICTIONARY :: "(string \<times> int) list" where
  "G_KEY_DICTIONARY =
    [('''', 0x00), (''A'', 0x1E), (''B'', 0x30), (''C'', 0x2E), (''D'', 0x20),
     (''E'', 0x12), (''F'', 0x21), (''G'', 0x22), (''H'', 0x23), (''I'', 0x17),
     (''J'', 0x24), (''K'', 0x25), (''L'', 0x26), (''M'', 0x32), (''N'', 0x31),
     (''O'', 0x18), (''P'', 0x19), (''Q'', 0x10), (''R'', 0x13), (''S'', 0x1F),
     (''T'', 0x14), (''U'', 0x16), (''V'', 0x2F), (''W'', 0x11), (''X'', 0x2D),
     (''Y'', 0x15), (''Z'', 0x2C), (''1'', 0x02), (''2'', 0x03), (''3'', 0x04),
     (''4'', 0x05), (''5'', 0x06), (''6'', 0x07), (''7'', 0x08), (''8'', 0x09),
     (''9'', 0x0A), (''0'', 0x0B), (''-'', 0x0C), (''='', 0x0D), (''['', 0x1A),
     ('']'', 0x1B), ('';'', 0x27), (''~'', 0x29), ('','', 0x33), (''.'', 0x34),
     (''F1'', 0x3B), (''F2'', 0x3C), (''F3'', 0x3D), (''F4'', 0x3E), (''F5'', 0x3F),
     (''F6'', 0x40), (''F7'', 0x41), (''F8'', 0x42), (''F9'', 0x43), (''F10'', 0x44),
     (''F11'', 0x57), (''F12'', 0x58), (''N1'', 0x4F), (''N2'', 0x50), (''N3'', 0x51),
     (''N4'', 0x4B), (''N5'', 0x4C), (''N6'', 0x4D), (''N7'', 0x47), (''N8'', 0x48),
     (''N9'', 0x49), (''N0'', 0x52), (''N-'', 0x4A), (''N+'', 0x4E), (''N.'', 0x53),
     (''ESC'', 0x01), (''BKSP'', 0x0E), (''TAB'', 0x0F), (''ENTER'', 0x1C),
     (''LCTRL'', 0x1D), (''APOS'', 0x28), (''LSHIFT'', 0x2A), (''FDSLSH'', 0x2B),
     (''BKSLSH'', 0x35), (''RSHIFT'', 0x36), (''PRTSCN'', 0x37), (''LALT'', 0x38),
     (''SPACE'', 0x39), (''CAPS'', 0x3A), (''NUMLCK'', 0x45), (''DEL'', 0x53),
     (''NENTER'', 0x9C), (''NBKSLH'', 0xB5), (''UP'', 0xC8), (''LEFT'', 0xCB),
     (''RIGHT'', 0xCD), (''DOWN'', 0xD0)]"

text \<open>
  The content of a \<^verbatim>\<open>Text\<close> widget that the code passes to \<^verbatim>\<open>int()\<close>:
  empty, an integer literal with its value, or any other text, on which \<^verbatim>\<open>int()\<close>
  raises \<^verbatim>\<open>ValueError\<close> (as it does on the empty text).
\<close>

datatype text_field = Blank | Number int | Malformed

definition int_of_text :: "text_field \<Rightarrow> py_exception + int" where
  "int_of_text t = (case t of Number n \<Rightarrow> Inr n | _ \<Rightarrow> Inl ValueError)"

text \<open>
  A \<open>ComputerAction\<close> with the widget values that \<open>f_process\<close> reads. The widgets
  are taken to exist (the action has been drawn).
\<close>

record ComputerAction =
  actionType :: string
  keyButtonValue :: string
  keyName :: string
  keyTapTime :: text_field
  mouseButtonValue :: string
  mouseX :: text_field
  mouseY :: text_field
  mouseRelative :: int

definition f_holdKey :: "int \<Rightarrow> outcome" where
  "f_holdKey p_hexKeyCode = ([SendInput p_hexKeyCode 0x0008], None)"

definition f_releaseKey :: "int \<Rightarrow> outcome" where
  "f_releaseKey p_hexKeyCode = ([SendInput p_hexKeyCode 0x000A], None)"

definition time_sleep :: "real \<Rightarrow> outcome" where
  "time_sleep secs = (if secs < 0 then ([], Some ValueError) else ([Sleep secs], None))"

text \<open>Sequencing: the second computation runs only when the first raised nothing.\<close>

definition andthen :: "outcome \<Rightarrow> outcome \<Rightarrow> outcome" where
  "andthen a b = (case snd a of Some e \<Rightarrow> a | None \<Rightarrow> (fst a @ fst b, snd b))"

definition f_tapKey :: "int \<Rightarrow> int \<Rightarrow> outcome" where
  "f_tapKey p_hexKeyCode p_milliseconds =
     andthen (f_holdKey p_hexKeyCode)
       (andthen (time_sleep (real_of_int p_milliseconds / 1000)) (f_releaseKey p_hexKeyCode))"

text \<open>
  The coordinate arguments of the mouse calls:
  \<^verbatim>\<open>int(text) if text != '' else None\<close> for a click and \<^verbatim>\<open>... else 0\<close> for a move.
\<close>

definition click_coord :: "text_field \<Rightarrow> py_exception + int option" where
  "click_coord t = (case t of Blank \<Rightarrow> Inr None | Number n \<Rightarrow> Inr (Some n) | Malformed \<Rightarrow> Inl ValueError)"

definition move_coord :: "text_field \<Rightarrow> py_exception + int" where
  "move_coord t = (case t of Blank \<Rightarrow> Inr 0 | Number n \<Rightarrow> Inr n | Malformed \<Rightarrow> Inl ValueError)"

definition click :: "(int option \<Rightarrow> int option \<Rightarrow> event) \<Rightarrow> ComputerAction \<Rightarrow> outcome" where
  "click call a =
     (case click_coord (mouseX a) of
        Inl e \<Rightarrow> ([], Some e)
      | Inr x \<Rightarrow> (case click_coord (mouseY a) of
                    Inl e \<Rightarrow> ([], Some e)
                  | Inr y \<Rightarrow> ([call x y], None)))"

text \<open>
  \<open>f_process\<close>. In the wait branch the source evaluates
  \<^verbatim>\<open>int(self.waitTime.get)\<close>, the bound method itself and not its result, which
  raises \<^verbatim>\<open>TypeError\<close> whatever the widget holds.
\<close>

definition f_process :: "ComputerAction \<Rightarrow> outcome" where
  "f_process a =
     (if actionType a = ''keyboard'' then
        (if keyButtonValue a = ''hold'' then
           (case map_of G_KEY_DICTIONARY (keyName a) of
              None \<Rightarrow> ([], Some KeyError)
            | Some code \<Rightarrow> f_holdKey code)
         else if keyButtonValue a = ''release'' then
           (case map_of G_KEY_DICTIONARY (keyName a) of
              None \<Rightarrow> ([], Some KeyError)
            | Some code \<Rightarrow> f_releaseKey code)
         else if keyButtonValue a = ''tap'' then
           (case map_of G_KEY_DICTIONARY (keyName a) of
              None \<Rightarrow> ([], Some KeyError)
            | Some code \<Rightarrow>
                (case int_of_text (keyTapTime a) of
                   Inl e \<Rightarrow> ([], Some e)
                 | Inr ms \<Rightarrow> f_tapKey code ms))
         else ([], None))
      else if actionType a = ''mouse'' then
        (if mouseButtonValue a = ''lc'' then click LeftClick a
         else if mouseButtonValue a = ''rc'' then click RightClick a
         else if mouseButtonValue a = ''mc'' then click MiddleClick a
         else if mouseButtonValue a = ''move'' then
           (case move_coord (mouseX a) of
              Inl e \<Rightarrow> ([], Some e)
            | Inr x \<Rightarrow> (case move_coord (mouseY a) of
                          Inl e \<Rightarrow> ([], Some e)
                        | Inr y \<Rightarrow> ([MoveRel x y (mouseRelative a)], None)))
         else ([], None))
      else if actionType a = ''wait'' then ([], Some TypeError)
      else ([], None))"

text \<open>
  A \<open>TwitchCommand\<close>: the text of its \<open>chatText\<close> widget (\<open>None\<close> while the widget
  has not been created, when reading it raises \<^verbatim>\<open>AttributeError\<close>) and its action
  list.
\<close>

record TwitchCommand =
  chatText :: "string option"
  actionList :: "ComputerAction list"

text \<open>\<^verbatim>\<open>for i_action in self.actionList: i_action.f_process()\<close>\<close>

fun process_actions :: "ComputerAction list \<Rightarrow> outcome" where
  "process_actions [] = ([], None)"
| "process_actions (i_action # rest) = andthen (f_process i_action) (process_actions rest)"

definition f_check :: "TwitchCommand \<Rightarrow> string \<Rightarrow> outcome" where
  "f_check c p_message =
     (case chatText c of
        None \<Rightarrow> ([], Some AttributeError)
      | Some l_command \<Rightarrow>
          (if l_command = p_message
           then andthen ([Print_CommandReceived], None) (process_actions (actionList c))
           else ([], None)))"

text \<open>
  A chat message as \<open>f_twitchReceiveMessages\<close> returns it and \<open>f_handleMessage\<close>
  receives it: a dictionary with the keys \<^verbatim>\<open>'username'\<close> and \<^verbatim>\<open>'message'\<close>.
\<close>

record chat_message =
  username :: string
  message :: string

text \<open>
  \<^verbatim>\<open>for i_command in g_commandList: i_command.f_check( p_message['message'].lower() )\<close>
\<close>

fun check_commands :: "TwitchCommand list \<Rightarrow> string \<Rightarrow> outcome" where
  "check_commands [] p = ([], None)"
| "check_commands (i_command # rest) p = andthen (f_check i_command p) (check_commands rest p)"

text \<open>
  \<open>f_handleMessage\<close>: the body of the \<^verbatim>\<open>try\<close>, and the \<^verbatim>\<open>except Exception\<close>
  clause, which prints the exception and returns.
\<close>

definition f_handleMessage_try :: "TwitchCommand list \<Rightarrow> chat_message \<Rightarrow> outcome" where
  "f_handleMessage_try g_commandList p_message =
     andthen ([Print_GotMessage (py_lower (username p_message)) (py_lower (message p_message))], None)
       (check_commands g_commandList (py_lower (message p_message)))"

definition f_handleMessage :: "TwitchCommand list \<Rightarrow> chat_message \<Rightarrow> outcome" where
  "f_handleMessage g_commandList p_message =
     (case f_handleMessage_try g_commandList p_message of
        (out, Some e) \<Rightarrow> (out @ [Print_Exception e], None)
      | (out, None) \<Rightarrow> (out, None))"

section \<open>The chat connection, class \<open>Twitch\<close>\<close>

text \<open>
  The attribute \<open>partial\<close> holds a byte string (\<^verbatim>\<open>b''\<close> at first and after
  \<open>f_connect\<close>, or a slice of the buffer), or a list: the parser resets it with
  \<^verbatim>\<open>self.partial = []\<close>, and \<^verbatim>\<open>+=\<close> on a list extends it with the integers
  of the byte string. Both are false when empty. \<^verbatim>\<open>self.partial + l_buffer\<close> is
  concatenation of byte strings, and raises \<^verbatim>\<open>TypeError\<close> for a list.
\<close>

datatype py_partial = PBytes bytes | PList "nat list"

definition truthy :: "py_partial \<Rightarrow> bool" where
  "truthy p = (case p of PBytes b \<Rightarrow> b \<noteq> [] | PList xs \<Rightarrow> xs \<noteq> [])"

definition partial_plus :: "py_partial \<Rightarrow> bytes \<Rightarrow> py_exception + bytes" where
  "partial_plus p l_buffer =
     (case p of PBytes b \<Rightarrow> Inr (b @ l_buffer) | PList xs \<Rightarrow> Inl TypeError)"

definition partial_iadd :: "py_partial \<Rightarrow> bytes \<Rightarrow> py_partial" where
  "partial_iadd p l_buffer =
     (case p of PBytes b \<Rightarrow> PBytes (b @ l_buffer) | PList xs \<Rightarrow> PList (xs @ map of_char l_buffer))"

text \<open>
  The object's attributes; \<open>sock\<close> tells whether a socket is held. \<open>re_prog\<close> is the
  same pattern after every \<open>f_connect\<close> and is not part of the state.
\<close>

record Twitch =
  sock :: bool
  partial :: py_partial
  login_ok :: bool
  channel :: string
  login_timestamp :: real

text \<open>
  The surroundings of the object: what the successive calls of
  \<^verbatim>\<open>sock.recv(4096)\<close>, \<^verbatim>\<open>time.time()\<close> and \<^verbatim>\<open>random.randint\<close> will return,
  and the events caused so far. A \<^verbatim>\<open>recv\<close> returns bytes (none when the peer has
  closed the connection), raises \<^verbatim>\<open>socket.timeout\<close>, or raises another exception.
\<close>

datatype recv_result = Recv bytes | Recv_Timeout | Recv_Error

record world =
  recvs :: "recv_result stream"
  clock :: "real stream"
  randoms :: "int stream"
  out :: "event list"

definition emit :: "event \<Rightarrow> world \<Rightarrow> world" where
  "emit e w = w\<lparr> out := out w @ [e] \<rparr>"

definition time_time :: "world \<Rightarrow> real \<times> world" where
  "time_time w = (shd (clock w), w\<lparr> clock := stl (clock w) \<rparr>)"

definition random_randint :: "world \<Rightarrow> int \<times> world" where
  "random_randint w = (shd (randoms w), w\<lparr> randoms := stl (randoms w) \<rparr>)"

text \<open>\<^verbatim>\<open>'%i' % n\<close>: the decimal digits of an integer.\<close>

fun digits :: "nat \<Rightarrow> string" where
  "digits n =
     (if n < 10 then [''0123456789'' ! n]
      else digits (n div 10) @ [''0123456789'' ! (n mod 10)])"

declare digits.simps [simp del]

definition format_i :: "int \<Rightarrow> string" where
  "format_i n = (if n < 0 then CHR ''-'' # digits (nat (- n)) else digits (nat n))"

definition f_connect :: "string \<Rightarrow> Twitch \<times> world \<Rightarrow> Twitch \<times> world" where
  "f_connect p_channel sw =
     (let (self, w) = sw;
          w = (if sock self then emit Sock_Close w else w);
          self = self\<lparr> sock := False, partial := PBytes [], login_ok := False,
                       channel := py_lower p_channel \<rparr>;
          w = emit Print_Connecting w;
          self = self\<lparr> sock := True \<rparr>;
          w = emit (Sock_Connect ''irc.chat.twitch.tv'' 6667) w;
          (n, w) = random_randint w;
          l_user = ''justinfan'' @ format_i n;
          w = emit Print_Connected w;
          w = emit (Sock_Send (''PASS asdf'' @ CRLF @ ''NICK '' @ l_user @ CRLF)) w;
          w = emit (Sock_SetTimeout (1 / 60)) w;
          (t, w) = time_time w
      in (self\<lparr> login_timestamp := t \<rparr>, w))"

definition f_reconnect :: "real \<Rightarrow> Twitch \<times> world \<Rightarrow> Twitch \<times> world" where
  "f_reconnect p_delay sw = (case sw of (self, w) \<Rightarrow> f_connect (channel self) (self, emit (Sleep p_delay) w))"

text \<open>
  The \<^verbatim>\<open>while True\<close> loop of \<open>f_receiveAndParseData\<close>. It ends at the first
  \<^verbatim>\<open>recv\<close> that times out, fails or returns no bytes, and runs on for as long as
  bytes arrive: the loop need not end, and \<open>None\<close> stands for a run that does not.
\<close>

datatype loop_exit = Drained bytes | Failed | Closed

partial_function (option) recv_loop ::
  "bytes \<Rightarrow> recv_result stream \<Rightarrow> (loop_exit \<times> recv_result stream) option" where
  "recv_loop l_buffer rs =
     (case shd rs of
        Recv_Timeout \<Rightarrow> Some (Drained l_buffer, stl rs)
      | Recv_Error \<Rightarrow> Some (Failed, stl rs)
      | Recv l_received \<Rightarrow>
          (if l_received = [] then Some (Closed, stl rs)
           else recv_loop (l_buffer @ l_received) (stl rs)))"

text \<open>
  The part of \<open>f_receiveAndParseData\<close> after the loop, for the buffer the loop
  collected. A result is the value returned or the exception raised, with the object and
  its surroundings as the call leaves them.
\<close>

type_synonym 'a result = "(py_exception + 'a) \<times> Twitch \<times> world"

definition parse_buffer :: "bytes \<Rightarrow> Twitch \<times> world \<Rightarrow> irc_message list result" where
  "parse_buffer l_buffer sw =
     (case sw of (self, w) \<Rightarrow>
      if l_buffer \<noteq> [] then
        (case (if truthy (partial self)
               then map_sum id (\<lambda>b. (b, self\<lparr> partial := PList [] \<rparr>))
                      (partial_plus (partial self) l_buffer)
               else Inr (l_buffer, self)) of
           Inl e \<Rightarrow> (Inl e, self, w)
         | Inr (l_buffer, self) \<Rightarrow>
             (let l_matches = finditer l_buffer;
                  l_res = map (frame_of l_buffer) l_matches
              in if l_matches = []
                 then (Inr l_res, self\<lparr> partial := partial_iadd (partial self) l_buffer \<rparr>, w)
                 else
                   (let end = m_end (last l_matches);
                        self = (if end < length l_buffer
                                then self\<lparr> partial := PBytes (drop end l_buffer) \<rparr>
                                else self);
                        w = (if m_start (hd l_matches) \<noteq> 0 then emit Print_Desync w else w)
                    in (Inr l_res, self, w))))
      else (Inr [], self, w))"

definition f_receiveAndParseData :: "Twitch \<times> world \<Rightarrow> irc_message list result option" where
  "f_receiveAndParseData sw =
     (case sw of (self, w) \<Rightarrow>
      case recv_loop [] (recvs w) of
        None \<Rightarrow> None
      | Some (ex, rs) \<Rightarrow>
          (let w = w\<lparr> recvs := rs \<rparr>
           in case ex of
                Failed \<Rightarrow>
                  (case f_reconnect 1 (self, emit Print_UnexpectedError w) of
                     (self, w) \<Rightarrow> Some (Inr [], self, w))
              | Closed \<Rightarrow>
                  (case f_reconnect 5 (self, emit Print_ClosedByTwitch w) of
                     (self, w) \<Rightarrow> Some (Inr [], self, w))
              | Drained l_buffer \<Rightarrow> Some (parse_buffer l_buffer (self, w))))"

text \<open>
  The \<^verbatim>\<open>for\<close> loop of \<open>f_twitchReceiveMessages\<close> over the parsed frames, with
  the list \<open>l_privmsgs\<close> it builds.
\<close>

fun classify ::
  "irc_message list \<Rightarrow> chat_message list \<Rightarrow> Twitch \<times> world \<Rightarrow> chat_message list result" where
  "classify [] l_privmsgs (self, w) = (Inr l_privmsgs, self, w)"
| "classify (i_irc_message # rest) l_privmsgs (self, w) =
     (let l_cmd = command i_irc_message in
      if l_cmd = ''PRIVMSG'' then
        classify rest
          (l_privmsgs @ [\<lparr> username = name i_irc_message, message = trailing i_irc_message \<rparr>])
          (self, w)
      else if l_cmd = ''PING'' then
        classify rest l_privmsgs (self, emit (Sock_Send (''PONG :tmi.twitch.tv'' @ CRLF)) w)
      else if l_cmd = ''001'' then
        classify rest l_privmsgs
          (self\<lparr> login_ok := True \<rparr>,
           emit (Sock_Send (''JOIN #'' @ channel self @ CRLF)) (emit (Print_LoggedIn (channel self)) w))
      else if l_cmd = ''JOIN'' then
        (case params i_irc_message of
           [] \<Rightarrow> (Inl IndexError, self, w)
         | p # _ \<Rightarrow> classify rest l_privmsgs (self, emit (Print_Joined p) w))
      else if l_cmd = ''NOTICE'' then
        classify rest l_privmsgs
          (self, emit (Print_Notice (params i_irc_message) (trailing i_irc_message)) w)
      else if l_cmd \<in> set [''002'', ''003'', ''004'', ''375'', ''372'', ''376'', ''353'', ''366''] then
        classify rest l_privmsgs (self, w)
      else classify rest l_privmsgs (self, emit (Print_Unhandled i_irc_message) w))"

text \<open>The login check that ends \<open>f_twitchReceiveMessages\<close>.\<close>

definition login_watchdog ::
  "config \<Rightarrow> chat_message list \<Rightarrow> Twitch \<times> world \<Rightarrow> chat_message list result" where
  "login_watchdog cfg l_privmsgs sw =
     (case sw of (self, w) \<Rightarrow>
      if \<not> login_ok self then
        (case time_time w of (t, w) \<Rightarrow>
         if t - login_timestamp self > G_MAX_TIME_TO_WAIT_FOR_LOGIN cfg
         then (case f_reconnect 0 (self, emit Print_NoResponse w) of
                 (self, w) \<Rightarrow> (Inr [], self, w))
         else (Inr l_privmsgs, self, w))
      else (Inr l_privmsgs, self, w))"

definition f_twitchReceiveMessages ::
  "config \<Rightarrow> Twitch \<times> world \<Rightarrow> chat_message list result option" where
  "f_twitchReceiveMessages cfg sw =
     (case f_receiveAndParseData sw of
        None \<Rightarrow> None
      | Some (Inl e, self, w) \<Rightarrow> Some (Inl e, self, w)
      | Some (Inr frames, self, w) \<Rightarrow>
          (case classify frames [] (self, w) of
             (Inl e, self, w) \<Rightarrow> Some (Inl e, self, w)
           | (Inr l_privmsgs, self, w) \<Rightarrow> Some (login_watchdog cfg l_privmsgs (self, w))))"

section \<open>Frames and lines\<close>

text \<open>
  The notions in which the behaviour of the parser on a stream of frames is stated. A
  legal frame is one line that the pattern matches from its first to its last byte; its
  only line feed is its last byte. \<open>parse_frames\<close> is what the parser makes of a
  buffer: the frame of each match, in order.
\<close>

definition legal_frame :: "bytes \<Rightarrow> bool" where
  "legal_frame l =
     (LF \<notin> set (butlast l) \<and> (case match_at l 0 of Some m \<Rightarrow> m_end m = length l | None \<Rightarrow> False))"

definition parse_frames :: "bytes \<Rightarrow> irc_message list" where
  "parse_frames s = map (frame_of s) (finditer s)"

text \<open>
  For the proofs: \<open>re_prog\<close> is \<^verbatim>\<open>^\<close>, then \<open>re_body\<close>, then the line feed, and
  \<open>re_body\<close> cannot step over a line feed (\<open>lf_free\<close>). A match found in a line
  is found again, moved by \<open>d\<close> bytes, when the line stands after \<open>d\<close> other bytes
  (\<open>shift_match\<close>, \<open>shift_groups\<close>); \<open>window s s' d n\<close> says that \<open>s'\<close>, from
  byte \<open>d\<close> on, agrees with \<open>s\<close> up to the line feed at \<open>n\<close>, and
  \<open>spans_within n g\<close> that the groups of \<open>g\<close> end at or before \<open>n\<close>.
\<close>

definition re_body :: regex where
  "re_body =
     Seq (Opt (Seq (Lit CHR '':'')
              (Seq (Alt (Seq (Grp 1 (PlusNot [CHR '' '', CHR ''!'', CR, LF]))
                        (Seq (Lit CHR ''!'') (StarNot [CHR '' '', CR, LF])))
                        (StarNot [CHR '' '', CR, LF]))
                   (Lit CHR '' ''))))
    (Seq (Grp 2 (PlusNot [CHR '' '', CR, LF]))
    (Seq (Opt (Seq (Lit CHR '' '') (Grp 3 (StarNot [CHR '':'', CR, LF]))))
    (Seq (Opt (Seq (Lit CHR '' '') (Seq (Lit CHR '':'') (Grp 4 (StarNot [CR, LF])))))
         (Lit CR))))"

fun lf_free :: "regex \<Rightarrow> bool" where
  "lf_free Bol = False"
| "lf_free (Lit c) = (c \<noteq> LF)"
| "lf_free (StarNot cs) = (LF \<in> set cs)"
| "lf_free (PlusNot cs) = (LF \<in> set cs)"
| "lf_free (Opt r) = lf_free r"
| "lf_free (Grp n r) = lf_free r"
| "lf_free (Seq a b) = (lf_free a \<and> lf_free b)"
| "lf_free (Alt a b) = (lf_free a \<and> lf_free b)"

definition shift_groups :: "nat \<Rightarrow> groups \<Rightarrow> groups" where
  "shift_groups d g = (\<lambda>n. map_option (\<lambda>(a, b). (a + d, b + d)) (g n))"

definition shift_match :: "nat \<Rightarrow> match \<Rightarrow> match" where
  "shift_match d m = \<lparr> m_start = m_start m + d, m_end = m_end m + d,
                       m_groups = shift_groups d (m_groups m) \<rparr>"

definition spans_within :: "nat \<Rightarrow> groups \<Rightarrow> bool" where
  "spans_within n g = (\<forall>m a b. g m = Some (a, b) \<longrightarrow> a \<le> b \<and> b \<le> n)"

definition window :: "bytes \<Rightarrow> bytes \<Rightarrow> nat \<Rightarrow> nat \<Rightarrow> bool" where
  "window s s' d n = (n < length s \<and> s ! n = LF \<and> n + d < length s' \<and> (\<forall>j\<le>n. s' ! (j + d) = s ! j))"

section \<open>Example data\<close>

text \<open>
  Concrete commands, messages, connection states and surroundings on which the
  properties below are evaluated. A new action has the widget values the constructor
  gives it: tap time \<open>500\<close>, coordinates \<open>0\<close>, empty selections.
\<close>

definition hold_space :: ComputerAction where
  "hold_space = \<lparr> actionType = ''keyboard'', keyButtonValue = ''hold'', keyName = ''SPACE'',
     keyTapTime = Number 500, mouseButtonValue = '''', mouseX = Number 0, mouseY = Number 0,
     mouseRelative = 0 \<rparr>"

definition wait_action :: ComputerAction where
  "wait_action = \<lparr> actionType = ''wait'', keyButtonValue = '''', keyName = '''',
     keyTapTime = Number 500, mouseButtonValue = '''', mouseX = Number 0, mouseY = Number 0,
     mouseRelative = 0 \<rparr>"

definition jump_command :: TwitchCommand where
  "jump_command = \<lparr> chatText = Some ''!jump'', actionList = [hold_space] \<rparr>"

definition jump_wait_command :: TwitchCommand where
  "jump_wait_command = \<lparr> chatText = Some ''!jump'', actionList = [wait_action] \<rparr>"

definition viewer1_jump :: chat_message where
  "viewer1_jump = \<lparr> username = ''viewer1'', message = ''!JUMP'' \<rparr>"

definition privmsg_jump :: bytes where
  "privmsg_jump = '':viewer1!viewer1@viewer1.tmi.twitch.tv PRIVMSG #chan :!JUMP'' @ CRLF"

definition ping_frame :: irc_message where
  "ping_frame = \<lparr> name = [], command = ''PING'', params = [[]], trailing = ''tmi.twitch.tv'' \<rparr>"

definition logged_in :: Twitch where
  "logged_in = \<lparr> sock = True, partial = PBytes [], login_ok = True, channel = ''chan'',
     login_timestamp = 0 \<rparr>"

definition awaiting_login :: Twitch where
  "awaiting_login = \<lparr> sock = True, partial = PBytes [], login_ok = False, channel = ''chan'',
     login_timestamp = 0 \<rparr>"

text \<open>
  Surroundings in which the calls of \<^verbatim>\<open>recv\<close> return the listed results and time out
  from then on, the clock reads \<open>t\<close>, and the random number is 12345.
\<close>

definition world_of :: "recv_result list \<Rightarrow> real \<Rightarrow> world" where
  "world_of rs t = \<lparr> recvs = rs @- sconst Recv_Timeout, clock = sconst t,
     randoms = sconst 12345, out = [] \<rparr>"

text \<open>
  The results of successive calls of \<open>f_receiveAndParseData\<close> on one object, up to
  the first call that raises.
\<close>

fun polls :: "nat \<Rightarrow> Twitch \<times> world \<Rightarrow> (py_exception + irc_message list) list option" where
  "polls 0 sw = Some []"
| "polls (Suc n) sw =
     (case f_receiveAndParseData sw of
        None \<Rightarrow> None
      | Some (Inl e, sw') \<Rightarrow> Some [Inl e]
      | Some (Inr frames, sw') \<Rightarrow> map_option ((#) (Inr frames)) (polls n sw'))"


section \<open>Evaluating the model\<close>

text \<open>The defining equations that evaluate the model on concrete data.\<close>

lemmas model_defs =
  f_connect_def f_reconnect_def emit_def time_time_def random_randint_def
  format_i_def digits.simps py_lower_def lower_char_def CRLF_def CR_def LF_def Let_def
  f_receiveAndParseData_def recv_loop.simps parse_buffer_def truthy_def partial_plus_def
  partial_iadd_def finditer_def finditer_from.simps match_at_def re_prog_def run_not_def frame_of_def
  group_or_empty_def f_twitchReceiveMessages_def login_watchdog_def source_config_def
  f_handleMessage_def f_handleMessage_try_def andthen_def f_check_def f_process_def
  G_KEY_DICTIONARY_def f_holdKey_def f_releaseKey_def f_tapKey_def time_sleep_def
  int_of_text_def click_def click_coord_def move_coord_def

lemmas fixture_defs =
  hold_space_def wait_action_def jump_command_def jump_wait_command_def viewer1_jump_def
  privmsg_jump_def ping_frame_def logged_in_def awaiting_login_def world_of_def


section \<open>Properties of the frame parser\<close>

text \<open>
  The matcher commutes with a function applied to its result, and a successful match
  has called its continuation at a position not before its start.
\<close>

lemma give_back_natural:
  "map_option h (give_back k i lo m) = give_back (\<lambda>j. map_option h (k j)) i lo m"
  by (induction m) (auto split: option.splits)

lemma rmatch_natural:
  "map_option h (rmatch s r k i g) = rmatch s r (\<lambda>j g. map_option h (k j g)) i g"
proof (induction r arbitrary: k i g)
  case (Opt r)
  show ?case by (simp add: Opt [symmetric] split: option.splits)
next
  case (Alt a b)
  show ?case by (simp add: Alt [symmetric] split: option.splits)
qed (simp_all add: give_back_natural)

lemma give_back_trace:
  "give_back k i lo m = Some x \<Longrightarrow> \<exists>t. t \<le> m \<and> k (i + t) = Some x"
proof (induction m)
  case 0
  then show ?case by (auto split: if_splits)
next
  case (Suc m)
  show ?case
  proof (cases "k (i + Suc m)")
    case None
    with Suc.prems have "give_back k i lo m = Some x" by (auto split: if_splits)
    from Suc.IH [OF this] show ?thesis by (meson le_SucI)
  next
    case (Some y)
    with Suc.prems have "y = x" by (auto split: if_splits)
    with Some show ?thesis by blast
  qed
qed

lemma rmatch_trace:
  "rmatch s r k i g = Some x \<Longrightarrow> \<exists>j g'. i \<le> j \<and> k j g' = Some x"
proof (induction r arbitrary: k i g)
  case Bol
  then show ?case by (auto split: if_splits)
next
  case (Lit c)
  then show ?case by (auto split: if_splits intro: le_SucI)
next
  case (StarNot cs)
  then show ?case by (auto dest!: give_back_trace intro: le_add1)
next
  case (PlusNot cs)
  then show ?case by (auto dest!: give_back_trace intro: le_add1)
next
  case (Opt r)
  then show ?case by (fastforce split: option.splits)
next
  case (Grp n r)
  from Grp.IH [OF Grp.prems [simplified]] show ?case by blast
next
  case (Seq a b)
  from Seq.IH(1) [OF Seq.prems [simplified]] obtain j g' where
    "i \<le> j" "rmatch s b k j g' = Some x" by blast
  with Seq.IH(2) [of k j g'] show ?case by (meson le_trans)
next
  case (Alt a b)
  then show ?case by (fastforce split: option.splits)
qed

text \<open>
  A part of the pattern that cannot step over a line feed sees only the bytes up to the
  next line feed: it behaves in the same way on any buffer that agrees with the line
  there.
\<close>

lemma takeWhile_cut:
  assumes "t \<le> length xs" and "0 < t" and "\<not> P (xs ! (t - 1))"
  shows "takeWhile P xs = takeWhile P (take t xs)" and "length (takeWhile P xs) < t"
proof -
  have mem: "xs ! (t - 1) \<in> set (take t xs)"
    using assms(1,2) by (metis diff_less in_set_conv_nth length_take less_numeral_extra(1) min.absorb2 nth_take)
  have "takeWhile P (take t xs @ drop t xs) = takeWhile P (take t xs)"
    using mem assms(3) by (rule takeWhile_append1)
  then show eq: "takeWhile P xs = takeWhile P (take t xs)" by simp
  have "takeWhile P (take t xs) \<noteq> take t xs"
    using mem assms(3) by (auto simp: takeWhile_eq_all_conv)
  moreover have "takeWhile P (take t xs) = take (length (takeWhile P (take t xs))) (take t xs)"
    by (rule takeWhile_eq_take)
  moreover have "length (takeWhile P (take t xs)) \<le> length (take t xs)"
    by (rule length_takeWhile_le)
  ultimately have "length (takeWhile P (take t xs)) < length (take t xs)"
    by (metis le_neq_implies_less take_all order_refl)
  then show "length (takeWhile P xs) < t" using eq assms(1) by simp
qed

lemma run_not_window:
  assumes "window s s' d n" and "i \<le> n" and "LF \<in> set cs"
  shows "run_not s' cs (i + d) = run_not s cs i" and "i + run_not s cs i \<le> n"
proof -
  let ?P = "\<lambda>c. c \<notin> set cs"
  let ?t = "n - i + 1"
  from assms(1) have n: "n < length s" "s ! n = LF" "n + d < length s'"
    and agree: "\<And>j. j \<le> n \<Longrightarrow> s' ! (j + d) = s ! j"
    by (auto simp: window_def)
  have tx: "?t \<le> length (drop i s)" and ty: "?t \<le> length (drop (i + d) s')"
    using n assms(2) by auto
  have lx: "drop i s ! (?t - 1) = LF" using n assms(2) by simp
  have ly: "drop (i + d) s' ! (?t - 1) = LF"
    using n assms(2) agree [of n] by (simp add: add.commute add.left_commute)
  have same: "take ?t (drop (i + d) s') = take ?t (drop i s)"
  proof (rule nth_equalityI)
    show "length (take ?t (drop (i + d) s')) = length (take ?t (drop i s))"
      using tx ty by simp
  next
    fix j assume "j < length (take ?t (drop (i + d) s'))"
    then have j: "j < ?t" by simp
    then have "i + j \<le> n" using assms(2) by simp
    from agree [OF this] j n assms(2)
    show "take ?t (drop (i + d) s') ! j = take ?t (drop i s) ! j"
      by (simp add: add.commute add.left_commute add.assoc)
  qed
  have "takeWhile ?P (drop (i + d) s') = takeWhile ?P (take ?t (drop (i + d) s'))"
    by (rule takeWhile_cut(1) [OF ty]) (use ly assms(3) in simp_all)
  also have "\<dots> = takeWhile ?P (take ?t (drop i s))" by (simp only: same)
  also have "\<dots> = takeWhile ?P (drop i s)"
    by (rule takeWhile_cut(1) [OF tx, symmetric]) (use lx assms(3) in simp_all)
  finally show "run_not s' cs (i + d) = run_not s cs i" by (simp add: run_not_def)
  have "length (takeWhile ?P (drop i s)) < ?t"
    by (rule takeWhile_cut(2) [OF tx]) (use lx assms(3) in simp_all)
  then show "i + run_not s cs i \<le> n" using assms(2) by (simp add: run_not_def)
qed

lemma give_back_window:
  assumes "\<And>t. t \<le> m \<Longrightarrow> k' (i + d + t) = map_option f (k (i + t))"
  shows "give_back k' (i + d) lo m = map_option f (give_back k i lo m)"
  using assms
proof (induction m)
  case 0
  from 0 [of 0] show ?case by simp
next
  case (Suc m)
  have "give_back k' (i + d) lo m = map_option f (give_back k i lo m)"
    by (rule Suc.IH) (simp add: Suc.prems)
  moreover have "k' (i + d + Suc m) = map_option f (k (i + Suc m))"
    by (rule Suc.prems) simp
  ultimately show ?case by (simp split: option.splits)
qed

lemma shift_groups_upd:
  "shift_groups d (g(m := Some (a, b))) = (shift_groups d g)(m := Some (a + d, b + d))"
  by (auto simp: shift_groups_def)

lemma spans_within_upd:
  "spans_within n g \<Longrightarrow> a \<le> b \<Longrightarrow> b \<le> n \<Longrightarrow> spans_within n (g(m := Some (a, b)))"
  by (auto simp: spans_within_def)

lemma rmatch_window:
  assumes "lf_free r" and "window s s' d n" and "i \<le> n" and "spans_within n g"
    and "\<And>j g. i \<le> j \<Longrightarrow> j \<le> n \<Longrightarrow> spans_within n g
            \<Longrightarrow> k' (j + d) (shift_groups d g) = map_option f (k j g)"
  shows "rmatch s' r k' (i + d) (shift_groups d g) = map_option f (rmatch s r k i g)"
  using assms
proof (induction r arbitrary: k k' i g)
  case Bol
  then show ?case by simp
next
  case (Lit c)
  from Lit.prems(2) have n: "n < length s" "s ! n = LF" "n + d < length s'"
    and agree: "s' ! (i + d) = s ! i"
    using Lit.prems(3) by (auto simp: window_def)
  have il: "i < length s" "i + d < length s'" using n Lit.prems(3) by auto
  show ?case
  proof (cases "s ! i = c")
    case True
    with Lit.prems(1) n(2) have "i \<noteq> n" by auto
    with Lit.prems(3) have "Suc i \<le> n" by simp
    from Lit.prems(5) [OF _ this Lit.prems(4)] True agree il show ?thesis by simp
  next
    case False
    with agree il show ?thesis by simp
  qed
next
  case (StarNot cs)
  note run = run_not_window [OF StarNot.prems(2,3), of cs]
  have lf: "LF \<in> set cs" using StarNot.prems(1) by simp
  have "give_back (\<lambda>j. k' j (shift_groups d g)) (i + d) 0 (run_not s cs i)
          = map_option f (give_back (\<lambda>j. k j g) i 0 (run_not s cs i))"
  proof (rule give_back_window)
    fix t assume "t \<le> run_not s cs i"
    with run(2) [OF lf] have "i + t \<le> n" by simp
    from StarNot.prems(5) [OF _ this StarNot.prems(4)]
    show "k' (i + d + t) (shift_groups d g) = map_option f (k (i + t) g)"
      by (simp add: add.commute add.left_commute)
  qed
  then show ?case by (simp add: run(1) [OF lf])
next
  case (PlusNot cs)
  note run = run_not_window [OF PlusNot.prems(2,3), of cs]
  have lf: "LF \<in> set cs" using PlusNot.prems(1) by simp
  have "give_back (\<lambda>j. k' j (shift_groups d g)) (i + d) 1 (run_not s cs i)
          = map_option f (give_back (\<lambda>j. k j g) i 1 (run_not s cs i))"
  proof (rule give_back_window)
    fix t assume "t \<le> run_not s cs i"
    with run(2) [OF lf] have "i + t \<le> n" by simp
    from PlusNot.prems(5) [OF _ this PlusNot.prems(4)]
    show "k' (i + d + t) (shift_groups d g) = map_option f (k (i + t) g)"
      by (simp add: add.commute add.left_commute)
  qed
  then show ?case by (simp add: run(1) [OF lf])
next
  case (Opt r)
  have "rmatch s' r k' (i + d) (shift_groups d g) = map_option f (rmatch s r k i g)"
    by (rule Opt.IH) (use Opt.prems in simp_all)
  moreover have "k' (i + d) (shift_groups d g) = map_option f (k i g)"
    by (rule Opt.prems(5)) (use Opt.prems in simp_all)
  ultimately show ?case by (simp split: option.splits)
next
  case (Grp m r)
  have "rmatch s' r (\<lambda>j g'. k' j (g'(m := Some (i + d, j)))) (i + d) (shift_groups d g)
      = map_option f (rmatch s r (\<lambda>j g'. k j (g'(m := Some (i, j)))) i g)"
  proof (rule Grp.IH)
    fix j g' assume j: "i \<le> j" "j \<le> n" and g': "spans_within n g'"
    have "spans_within n (g'(m := Some (i, j)))"
      using g' j by (rule spans_within_upd)
    from Grp.prems(5) [OF j this]
    show "k' (j + d) ((shift_groups d g')(m := Some (i + d, j + d)))
            = map_option f (k j (g'(m := Some (i, j))))"
      by (simp only: shift_groups_upd)
  qed (use Grp.prems in simp_all)
  then show ?case by simp
next
  case (Seq a b)
  have "rmatch s' a (\<lambda>j g'. rmatch s' b k' j g') (i + d) (shift_groups d g)
      = map_option f (rmatch s a (\<lambda>j g'. rmatch s b k j g') i g)"
  proof (rule Seq.IH(1))
    fix j g' assume j: "i \<le> j" "j \<le> n" and g': "spans_within n g'"
    show "rmatch s' b k' (j + d) (shift_groups d g') = map_option f (rmatch s b k j g')"
    proof (rule Seq.IH(2))
      fix j' g'' assume "j \<le> j'" "j' \<le> n" "spans_within n g''"
      with j(1) Seq.prems(5) [of j' g'']
      show "k' (j' + d) (shift_groups d g'') = map_option f (k j' g'')" by simp
    qed (use Seq.prems j g' in simp_all)
  qed (use Seq.prems in simp_all)
  then show ?case by simp
next
  case (Alt a b)
  have "rmatch s' a k' (i + d) (shift_groups d g) = map_option f (rmatch s a k i g)"
    by (rule Alt.IH(1)) (use Alt.prems in simp_all)
  moreover have "rmatch s' b k' (i + d) (shift_groups d g) = map_option f (rmatch s b k i g)"
    by (rule Alt.IH(2)) (use Alt.prems in simp_all)
  ultimately show ?case by (simp split: option.splits)
qed

text \<open>
  Hence a match of \<open>re_prog\<close> ends just after a line feed, and a line is matched in the
  same way, and gives the same frame, whether it stands alone or after complete lines and
  before any other bytes.
\<close>

lemma lf_free_re_body: "lf_free re_body"
  by (simp add: re_body_def LF_def CR_def)

lemma rmatch_Seq_ext: "rmatch s (Seq a b) k = rmatch s a (rmatch s b k)"
  by (rule ext)+ simp

lemma re_prog_split:
  "rmatch s re_prog k = rmatch s Bol (rmatch s re_body (rmatch s (Lit LF) k))"
  unfolding re_prog_def re_body_def by (simp only: rmatch_Seq_ext)

lemma match_at_end:
  assumes "match_at s i = Some m"
  shows "m_start m = i" and "i < m_end m" and "m_end m \<le> length s" and "s ! (m_end m - 1) = LF"
proof -
  let ?k = "\<lambda>j g. Some \<lparr> m_start = i, m_end = j, m_groups = g \<rparr>"
  from assms have "rmatch s Bol (\<lambda>j g. rmatch s re_body (\<lambda>j g. rmatch s (Lit LF) ?k j g) j g)
                     i (\<lambda>n. None) = Some m"
    unfolding match_at_def re_prog_split .
  from rmatch_trace [OF this] obtain j g' where
    j: "i \<le> j" "rmatch s re_body (\<lambda>j g. rmatch s (Lit LF) ?k j g) j g' = Some m" by blast
  from rmatch_trace [OF j(2)] obtain j' g'' where
    j': "j \<le> j'" "rmatch s (Lit LF) ?k j' g'' = Some m" by blast
  from j'(2) have "j' < length s" "s ! j' = LF" "m = \<lparr> m_start = i, m_end = Suc j', m_groups = g'' \<rparr>"
    by (auto split: if_splits)
  with j(1) j'(1) show "m_start m = i" and "i < m_end m" and "m_end m \<le> length s"
    and "s ! (m_end m - 1) = LF" by auto
qed

lemma window_line:
  assumes "l \<noteq> []" and "last l = LF"
  shows "window l (pre @ l @ post) (length pre) (length l - 1)"
proof -
  have "l ! (length l - 1) = LF" using assms by (simp add: last_conv_nth)
  moreover have lt: "\<And>j. j \<le> length l - 1 \<Longrightarrow> j < length l"
    using assms(1) by (cases l) auto
  then have "\<forall>j\<le>length l - 1. (pre @ l @ post) ! (j + length pre) = l ! j"
    by (auto simp: nth_append)
  moreover have "length l - 1 < length l" using assms(1) by simp
  ultimately show ?thesis by (auto simp: window_def)
qed

lemma shift_groups_empty: "shift_groups d (\<lambda>n. None) = (\<lambda>n. None)"
  by (simp add: shift_groups_def)

lemma spans_within_empty: "spans_within n (\<lambda>n. None)"
  by (simp add: spans_within_def)

lemma rmatch_Bol_0: "rmatch s Bol k 0 g = k 0 g"
  by simp

lemma rmatch_Bol_start:
  assumes "pre = [] \<or> last pre = LF"
  shows "rmatch (pre @ rest) Bol k (length pre) g = k (length pre) g"
  using assms by (cases "pre = []") (auto simp: nth_append last_conv_nth)

lemma match_at_shift:
  assumes "l \<noteq> []" and "last l = LF" and "pre = [] \<or> last pre = LF"
  shows "match_at (pre @ l @ post) (length pre)
           = map_option (shift_match (length pre)) (match_at l 0)"
proof -
  let ?d = "length pre" and ?n = "length l - 1" and ?s' = "pre @ l @ post"
  let ?k = "\<lambda>j g. Some \<lparr> m_start = 0, m_end = j, m_groups = g \<rparr>"
  let ?k' = "\<lambda>j g. Some \<lparr> m_start = ?d, m_end = j, m_groups = g \<rparr>"
  note win = window_line [OF assms(1,2), of pre post]
  have body: "rmatch ?s' re_body (\<lambda>j g. rmatch ?s' (Lit LF) ?k' j g) (0 + ?d) (shift_groups ?d (\<lambda>n. None))
      = map_option (shift_match ?d) (rmatch l re_body (\<lambda>j g. rmatch l (Lit LF) ?k j g) 0 (\<lambda>n. None))"
  proof (rule rmatch_window [OF lf_free_re_body win _ spans_within_empty])
    fix j g assume j: "0 \<le> j" "j \<le> ?n" and g: "spans_within ?n g"
    from win j(2) have "j < length l" "j + ?d < length ?s'" "?s' ! (j + ?d) = l ! j"
      by (auto simp: window_def)
    then show "rmatch ?s' (Lit LF) ?k' (j + ?d) (shift_groups ?d g)
            = map_option (shift_match ?d) (rmatch l (Lit LF) ?k j g)"
      by (simp add: shift_match_def)
  qed simp
  have "match_at ?s' ?d = rmatch ?s' re_body (\<lambda>j g. rmatch ?s' (Lit LF) ?k' j g) ?d (\<lambda>n. None)"
    by (simp only: match_at_def re_prog_split rmatch_Bol_start [OF assms(3)])
  moreover have "match_at l 0 = rmatch l re_body (\<lambda>j g. rmatch l (Lit LF) ?k j g) 0 (\<lambda>n. None)"
    by (simp only: match_at_def re_prog_split rmatch_Bol_0)
  ultimately show ?thesis using body by (simp add: shift_groups_empty)
qed

lemma group_or_empty_shift:
  assumes "m_groups m' = shift_groups (length pre) (m_groups m)"
    and "spans_within n (m_groups m)" and "n < length l"
  shows "group_or_empty (pre @ l @ post) m' c = group_or_empty l m c"
proof (cases "m_groups m c")
  case None
  then show ?thesis using assms(1) by (simp add: group_or_empty_def shift_groups_def)
next
  case (Some ab)
  obtain x y where ab: "ab = (x, y)" by (cases ab)
  from assms(2) Some ab have "x \<le> y \<and> y \<le> n" unfolding spans_within_def by blast
  with assms(3) have xy: "x \<le> y" "y \<le> n" "y < length l" by auto
  then have "take (y - x) (drop x l @ post) = take (y - x) (drop x l)" by simp
  with Some ab xy assms(1) show ?thesis
    by (simp add: group_or_empty_def shift_groups_def drop_append flip: drop_drop)
qed

lemma frame_of_shift:
  assumes "m_groups m' = shift_groups (length pre) (m_groups m)"
    and "spans_within n (m_groups m)" and "n < length l"
  shows "frame_of (pre @ l @ post) m' = frame_of l m"
  by (simp add: frame_of_def group_or_empty_shift [OF assms])

lemma match_at_frame:
  assumes "l \<noteq> []" and "last l = LF" and "pre = [] \<or> last pre = LF"
  shows "map_option (frame_of (pre @ l @ post)) (match_at (pre @ l @ post) (length pre))
           = map_option (frame_of l) (match_at l 0)"
proof -
  let ?d = "length pre" and ?n = "length l - 1" and ?s' = "pre @ l @ post"
  let ?k = "\<lambda>j g. Some (frame_of l \<lparr> m_start = 0, m_end = j, m_groups = g \<rparr>)"
  let ?k' = "\<lambda>j g. Some (frame_of ?s' \<lparr> m_start = ?d, m_end = j, m_groups = g \<rparr>)"
  note win = window_line [OF assms(1,2), of pre post]
  have nl: "?n < length l" using assms(1) by simp
  have body: "rmatch ?s' re_body (\<lambda>j g. rmatch ?s' (Lit LF) ?k' j g) (0 + ?d) (shift_groups ?d (\<lambda>n. None))
      = map_option (\<lambda>x. x) (rmatch l re_body (\<lambda>j g. rmatch l (Lit LF) ?k j g) 0 (\<lambda>n. None))"
  proof (rule rmatch_window [OF lf_free_re_body win _ spans_within_empty])
    fix j g assume j: "0 \<le> j" "j \<le> ?n" and g: "spans_within ?n g"
    from win j(2) have "j < length l" "j + ?d < length ?s'" "?s' ! (j + ?d) = l ! j"
      by (auto simp: window_def)
    moreover have "frame_of ?s' \<lparr> m_start = ?d, m_end = Suc (j + ?d), m_groups = shift_groups ?d g \<rparr>
                 = frame_of l \<lparr> m_start = 0, m_end = Suc j, m_groups = g \<rparr>"
      by (rule frame_of_shift [of _ _ _ ?n]) (use g nl in simp_all)
    ultimately show "rmatch ?s' (Lit LF) ?k' (j + ?d) (shift_groups ?d g)
            = map_option (\<lambda>x. x) (rmatch l (Lit LF) ?k j g)"
      by simp
  qed simp
  have "map_option (frame_of ?s') (match_at ?s' ?d)
          = rmatch ?s' re_body (\<lambda>j g. rmatch ?s' (Lit LF) ?k' j g) ?d (\<lambda>n. None)"
    by (simp only: match_at_def rmatch_natural re_prog_split rmatch_Bol_start [OF assms(3)]
        option.map)
  moreover have "map_option (frame_of l) (match_at l 0)
          = rmatch l re_body (\<lambda>j g. rmatch l (Lit LF) ?k j g) 0 (\<lambda>n. None)"
    by (simp only: match_at_def rmatch_natural re_prog_split rmatch_Bol_0 option.map)
  ultimately show ?thesis using body by (simp add: shift_groups_empty option.map_ident)
qed

text \<open>
  \<open>finditer\<close> on legal frames followed by bytes without a line feed: one match for
  each frame, giving the frame that the frame alone gives, the first at the start of the
  buffer and the last ending where the frames end.
\<close>

lemma legal_frameD:
  assumes "legal_frame l"
  obtains m where "match_at l 0 = Some m" and "m_end m = length l" and "m_start m = 0"
    and "l \<noteq> []" and "last l = LF"
proof -
  from assms obtain m where m: "match_at l 0 = Some m" "m_end m = length l"
    by (auto simp: legal_frame_def split: option.splits)
  from match_at_end [OF m(1)] m(2) have "m_start m = 0" "0 < length l" "l ! (length l - 1) = LF"
    by auto
  then have "l \<noteq> []" "last l = LF" by (auto simp: last_conv_nth)
  with m \<open>m_start m = 0\<close> show ?thesis by (rule that)
qed

lemma no_match_tail:
  "(\<And>j. i \<le> j \<Longrightarrow> j < length s \<Longrightarrow> s ! j \<noteq> LF) \<Longrightarrow> finditer_from s i = []"
proof (induction s i rule: finditer_from.induct)
  case (1 s i)
  show ?case
  proof (cases "length s < i")
    case True
    then show ?thesis by (subst finditer_from.simps) simp
  next
    case False
    have none: "match_at s i = None"
    proof (rule ccontr)
      assume "match_at s i \<noteq> None"
      then obtain m where m: "match_at s i = Some m" by auto
      from match_at_end [OF m] have "i \<le> m_end m - 1" "m_end m - 1 < length s"
        "s ! (m_end m - 1) = LF" by auto
      with "1.prems" show False by blast
    qed
    have "finditer_from s (Suc i) = []"
      by (rule "1.IH"(1) [OF False none]) (use "1.prems" in simp)
    with False none show ?thesis by (subst finditer_from.simps) simp
  qed
qed

lemma finditer_legal:
  assumes "legal_frame l"
  obtains m where "finditer l = [m]" and "match_at l 0 = Some m" and "m_end m = length l"
proof -
  from assms obtain m where m: "match_at l 0 = Some m" "m_end m = length l" "l \<noteq> []"
    by (rule legal_frameD)
  have "finditer_from l (length l) = []" by (rule no_match_tail) simp
  moreover have "max (length l) (Suc 0) = length l" using m(3) by (cases l) auto
  ultimately have "finditer l = [m]"
    using m by (simp add: finditer_def finditer_from.simps [of l 0])
  then show ?thesis using m(1,2) by (rule that)
qed

lemma parse_frames_legal:
  assumes "legal_frame l" and "match_at l 0 = Some m"
  shows "parse_frames l = [frame_of l m]"
proof -
  from assms(1) obtain m' where "finditer l = [m']" and "match_at l 0 = Some m'"
    by (rule finditer_legal)
  with assms(2) show ?thesis by (simp add: parse_frames_def)
qed

lemma finditer_step:
  assumes "legal_frame l" and "pre = [] \<or> last pre = LF"
  obtains m' where
    "finditer_from (pre @ l @ post) (length pre)
       = m' # finditer_from (pre @ l @ post) (length pre + length l)"
    and "m_start m' = length pre" and "m_end m' = length pre + length l"
    and "[frame_of (pre @ l @ post) m'] = parse_frames l"
proof -
  let ?s = "pre @ l @ post" and ?d = "length pre"
  from assms(1) obtain m where m: "match_at l 0 = Some m" "m_end m = length l" "m_start m = 0"
    "l \<noteq> []" "last l = LF" by (rule legal_frameD)
  have at: "match_at ?s ?d = Some (shift_match ?d m)"
    using match_at_shift [OF m(4,5) assms(2), of post] m(1) by simp
  have fr: "frame_of ?s (shift_match ?d m) = frame_of l m"
    using match_at_frame [OF m(4,5) assms(2), of post] m(1) at by simp
  have mx: "max (m_end (shift_match ?d m)) (Suc ?d) = ?d + length l"
    using m(2,4) by (cases l) (auto simp: shift_match_def)
  have "finditer_from ?s ?d = shift_match ?d m # finditer_from ?s (?d + length l)"
    using at mx by (subst finditer_from.simps) simp
  moreover have "m_start (shift_match ?d m) = ?d" "m_end (shift_match ?d m) = ?d + length l"
    using m(2,3) by (simp_all add: shift_match_def)
  moreover have "[frame_of ?s (shift_match ?d m)] = parse_frames l"
    using fr parse_frames_legal [OF assms(1) m(1)] by simp
  ultimately show ?thesis by (rule that)
qed

lemma finditer_lines:
  assumes "\<forall>l \<in> set ls. legal_frame l" and "LF \<notin> set T" and "pre = [] \<or> last pre = LF"
  shows "map (frame_of (pre @ concat ls @ T)) (finditer_from (pre @ concat ls @ T) (length pre))
           = concat (map parse_frames ls)
       \<and> (ls = [] \<longrightarrow> finditer_from (pre @ concat ls @ T) (length pre) = [])
       \<and> (ls \<noteq> [] \<longrightarrow> finditer_from (pre @ concat ls @ T) (length pre) \<noteq> []
            \<and> m_start (hd (finditer_from (pre @ concat ls @ T) (length pre))) = length pre
            \<and> m_end (last (finditer_from (pre @ concat ls @ T) (length pre)))
                = length pre + length (concat ls))"
  using assms
proof (induction ls arbitrary: pre)
  case Nil
  have "finditer_from (pre @ T) (length pre) = []"
  proof (rule no_match_tail)
    fix j assume "length pre \<le> j" "j < length (pre @ T)"
    then have eq: "(pre @ T) ! j = T ! (j - length pre)" and lt: "j - length pre < length T"
      by (auto simp: nth_append)
    from lt have "T ! (j - length pre) \<in> set T" by (rule nth_mem)
    with Nil.prems(2) eq show "(pre @ T) ! j \<noteq> LF" by auto
  qed
  then show ?case by simp
next
  case (Cons l ls)
  define s where "s = pre @ concat (l # ls) @ T"
  define d where "d = length pre"
  define R where "R = finditer_from s (d + length l)"
  from Cons.prems(1) have l: "legal_frame l" and ls: "\<forall>l \<in> set ls. legal_frame l" by simp_all
  from l obtain m0 where "l \<noteq> []" "last l = LF" by (rule legal_frameD)
  then have pre': "pre @ l = [] \<or> last (pre @ l) = LF" by simp
  have s1: "s = pre @ l @ (concat ls @ T)" and s2: "s = (pre @ l) @ concat ls @ T"
    by (simp_all add: s_def)
  from finditer_step [OF l Cons.prems(3), of "concat ls @ T"] obtain m' where
    m': "finditer_from s d = m' # R" "m_start m' = d" "m_end m' = d + length l"
    "[frame_of s m'] = parse_frames l"
    unfolding s1 [symmetric] d_def [symmetric] R_def [symmetric] by blast
  have len: "length (pre @ l) = d + length l" by (simp add: d_def)
  from Cons.IH [OF ls Cons.prems(2) pre']
  have IH1: "map (frame_of s) R = concat (map parse_frames ls)"
    and IH2: "ls = [] \<longrightarrow> R = []"
    and IH3: "ls \<noteq> [] \<longrightarrow> R \<noteq> [] \<and> m_start (hd R) = d + length l
                \<and> m_end (last R) = d + length l + length (concat ls)"
    unfolding s2 [symmetric] len R_def [symmetric] by blast+
  have c1: "map (frame_of s) (finditer_from s d) = concat (map parse_frames (l # ls))"
  proof -
    have "map (frame_of s) (m' # R) = [frame_of s m'] @ map (frame_of s) R" by simp
    also have "\<dots> = parse_frames l @ concat (map parse_frames ls)"
      by (simp only: m'(4) IH1)
    finally show ?thesis by (simp add: m'(1))
  qed
  have c3: "finditer_from s d \<noteq> [] \<and> m_start (hd (finditer_from s d)) = d
              \<and> m_end (last (finditer_from s d)) = d + length (concat (l # ls))"
  proof (cases "ls = []")
    case True
    with IH2 have "R = []" by simp
    with True m' show ?thesis by simp
  next
    case False
    with IH3 have "R \<noteq> []" "m_end (last R) = d + length l + length (concat ls)" by simp_all
    with m' show ?thesis by simp
  qed
  from c1 c3 show ?case unfolding s_def d_def by simp
qed

text \<open>
  The parser on a split frame. Let the buffer be legal frames, cut in the middle of one
  of them into a first part ending with \<open>P\<close> and a second part starting with \<open>S\<close>.
  With \<open>partial\<close> the empty byte string, as \<open>f_connect\<close> leaves it, parsing the
  first part returns the frames before the cut and keeps \<open>P\<close>; parsing the second part
  then returns the cut frame and the frames after it; and parsing the whole buffer at once
  returns the same frames. The first two leave \<open>partial\<close> as the empty list, the last
  one as the empty byte string.
\<close>

lemma parse_buffer_lines:
  assumes "\<forall>l \<in> set ls. legal_frame l" and "LF \<notin> set T" and "concat ls @ T \<noteq> []"
    and "\<not> truthy (partial self)"
  shows "parse_buffer (concat ls @ T) (self, w)
           = (Inr (concat (map parse_frames ls)),
              (if ls = [] then self\<lparr> partial := partial_iadd (partial self) T \<rparr>
               else if T = [] then self else self\<lparr> partial := PBytes T \<rparr>),
              w)"
proof -
  define s where "s = concat ls @ T"
  define ms where "ms = finditer s"
  have "[] = [] \<or> last [] = LF" by simp
  from finditer_lines [OF assms(1,2) this]
  have fr: "map (frame_of s) ms = concat (map parse_frames ls)"
    and e: "ls = [] \<longrightarrow> ms = []"
    and ne: "ls \<noteq> [] \<longrightarrow> ms \<noteq> [] \<and> m_start (hd ms) = 0 \<and> m_end (last ms) = length (concat ls)"
    by (simp_all add: s_def ms_def finditer_def)
  have s: "s \<noteq> []" using assms(3) by (simp add: s_def)
  show ?thesis
  proof (cases "ls = []")
    case True
    with e have "ms = []" by simp
    with True fr s assms(4) show ?thesis
      unfolding s_def [symmetric]
      by (simp add: parse_buffer_def Let_def flip: ms_def) (simp add: s_def)
  next
    case False
    with ne have ms: "ms \<noteq> []" "m_start (hd ms) = 0" "m_end (last ms) = length (concat ls)"
      by simp_all
    have lt: "m_end (last ms) < length s \<longleftrightarrow> T \<noteq> []" by (simp add: ms(3) s_def)
    have dr: "drop (m_end (last ms)) s = T" by (simp add: ms(3) s_def)
    from False fr s assms(4) ms(1,2) lt dr show ?thesis
      unfolding s_def [symmetric]
      by (simp add: parse_buffer_def Let_def flip: ms_def)
  qed
qed

lemma parse_buffer_carry:
  assumes "partial self = PBytes P" and "P \<noteq> []" and "B \<noteq> []"
  shows "parse_buffer B (self, w) = parse_buffer (P @ B) (self\<lparr> partial := PList [] \<rparr>, w)"
  using assms by (simp add: parse_buffer_def truthy_def partial_plus_def)

lemma legal_prefix_lf_free:
  assumes "legal_frame (P @ S)" and "S \<noteq> []"
  shows "LF \<notin> set P"
  using assms by (auto simp: legal_frame_def butlast_append)

theorem fresh_split_reassembles:
  assumes "\<forall>l \<in> set ls1. legal_frame l" and "\<forall>l \<in> set ls2. legal_frame l"
    and "legal_frame (P @ S)" and "P \<noteq> []" and "S \<noteq> []"
    and "partial self = PBytes []"
  shows "parse_buffer (concat ls1 @ P) (self, w)
           = (Inr (concat (map parse_frames ls1)), self\<lparr> partial := PBytes P \<rparr>, w)"
    and "parse_buffer (S @ concat ls2) (self\<lparr> partial := PBytes P \<rparr>, w)
           = (Inr (concat (map parse_frames ((P @ S) # ls2))), self\<lparr> partial := PList [] \<rparr>, w)"
    and "parse_buffer (concat ls1 @ P @ S @ concat ls2) (self, w)
           = (Inr (concat (map parse_frames ls1) @ concat (map parse_frames ((P @ S) # ls2))),
              self, w)"
proof -
  have P: "LF \<notin> set P" using assms(3,5) by (rule legal_prefix_lf_free)
  have nt: "\<not> truthy (partial self)" using assms(6) by (simp add: truthy_def)
  show "parse_buffer (concat ls1 @ P) (self, w)
           = (Inr (concat (map parse_frames ls1)), self\<lparr> partial := PBytes P \<rparr>, w)"
    using parse_buffer_lines [OF assms(1) P _ nt, of w] assms(4,6)
    by (simp add: partial_iadd_def)
  have all2: "\<forall>l \<in> set ((P @ S) # ls2). legal_frame l" using assms(2,3) by simp
  have "parse_buffer (S @ concat ls2) (self\<lparr> partial := PBytes P \<rparr>, w)
          = parse_buffer (P @ S @ concat ls2) (self\<lparr> partial := PList [] \<rparr>, w)"
    using parse_buffer_carry [of "self\<lparr> partial := PBytes P \<rparr>" P "S @ concat ls2" w] assms(4,5)
    by simp
  also have "\<dots> = (Inr (concat (map parse_frames ((P @ S) # ls2))), self\<lparr> partial := PList [] \<rparr>, w)"
    using parse_buffer_lines [OF all2, of "[]" "self\<lparr> partial := PList [] \<rparr>" w] assms(4)
    by (simp add: truthy_def)
  finally show "parse_buffer (S @ concat ls2) (self\<lparr> partial := PBytes P \<rparr>, w)
           = (Inr (concat (map parse_frames ((P @ S) # ls2))), self\<lparr> partial := PList [] \<rparr>, w)" .
  have all: "\<forall>l \<in> set (ls1 @ (P @ S) # ls2). legal_frame l" using assms(1,2,3) by auto
  show "parse_buffer (concat ls1 @ P @ S @ concat ls2) (self, w)
           = (Inr (concat (map parse_frames ls1) @ concat (map parse_frames ((P @ S) # ls2))),
              self, w)"
    using parse_buffer_lines [OF all, of "[]" self w] nt assms(4) by simp
qed

text \<open>
  With \<open>partial\<close> the empty list, as the parser leaves it once it has put a frame
  together, the first part of a frame is stored as a list of integers, and parsing any
  further bytes raises \<^verbatim>\<open>TypeError\<close>.
\<close>

theorem stale_list_breaks_split:
  assumes "partial self = PList []" and "LF \<notin> set P" and "P \<noteq> []" and "B \<noteq> []"
  shows "parse_buffer P (self, w) = (Inr [], self\<lparr> partial := PList (map of_char P) \<rparr>, w)"
    and "parse_buffer B (self\<lparr> partial := PList (map of_char P) \<rparr>, w)
           = (Inl TypeError, self\<lparr> partial := PList (map of_char P) \<rparr>, w)"
proof -
  have nt: "\<not> truthy (partial self)" using assms(1) by (simp add: truthy_def)
  have "\<forall>l \<in> set []. legal_frame l" by simp
  from parse_buffer_lines [OF this assms(2) _ nt, of w] assms(1,3)
  show "parse_buffer P (self, w) = (Inr [], self\<lparr> partial := PList (map of_char P) \<rparr>, w)"
    by (simp add: partial_iadd_def)
  show "parse_buffer B (self\<lparr> partial := PList (map of_char P) \<rparr>, w)
           = (Inl TypeError, self\<lparr> partial := PList (map of_char P) \<rparr>, w)"
    using assms(3,4) by (simp add: parse_buffer_def truthy_def partial_plus_def)
qed

text \<open>The frames of the examples are legal.\<close>

lemma ping_is_legal: "legal_frame (''PING :tmi.twitch.tv'' @ CRLF)"
  by (simp add: legal_frame_def model_defs)

lemma privmsg_is_legal: "legal_frame privmsg_jump"
  by (simp add: legal_frame_def model_defs fixture_defs)


section \<open>Properties of the message handler\<close>





text \<open>
  \<open>f_check\<close> runs the action list, after its message, when the text of the command
  is the text it is given, and does nothing otherwise.
\<close>

lemma f_check_events:
  "fst (f_check c p) =
     (if chatText c = Some p then Print_CommandReceived # fst (process_actions (actionList c)) else [])"
  by (auto simp: f_check_def andthen_def split: option.splits)





text \<open>
  The text of a command is compared as it is. \<open>py_lower\<close> changes nothing in a text
  it has produced, so a command whose text is not in lower case is never run.
\<close>

lemma lower_char_idem: "lower_char (lower_char c) = lower_char c"
  by (simp add: lower_char_def split: option.splits if_splits)

lemma py_lower_idem: "py_lower (py_lower s) = py_lower s"
  by (simp add: py_lower_def lower_char_idem)

lemma unnormalized_text_never_matches:
  assumes "chatText c = Some t" and "py_lower t \<noteq> t"
  shows "fst (f_check c (py_lower p)) = []"
proof -
  have "t \<noteq> py_lower p" using assms(2) py_lower_idem [of p] by auto
  with assms(1) show ?thesis by (simp add: f_check_events)
qed

text \<open>
  Claim C7. \<open>f_handleMessage\<close> never ends with an exception: whatever the commands and
  their actions raise inside the \<^verbatim>\<open>try\<close> is printed by the \<^verbatim>\<open>except\<close> clause, after
  the events that came before it, and the handler returns.
\<close>

theorem handleMessage_catches:
  "snd (f_handleMessage cmds m) = None
   \<and> (snd (f_handleMessage_try cmds m) = Some e
        \<longrightarrow> fst (f_handleMessage cmds m) = fst (f_handleMessage_try cmds m) @ [Print_Exception e])"
  by (auto simp: f_handleMessage_def split: prod.splits option.splits)

theorem handleMessage_catches_witness:
  "snd (f_handleMessage_try [jump_wait_command] viewer1_jump) = Some TypeError
   \<and> f_handleMessage [jump_wait_command] viewer1_jump
       = ([Print_GotMessage ''viewer1'' ''!jump'', Print_CommandReceived, Print_Exception TypeError],
          None)"
proof -
  have h: "f_handleMessage_try [jump_wait_command] viewer1_jump
             = ([Print_GotMessage ''viewer1'' ''!jump'', Print_CommandReceived], Some TypeError)"
    by (simp add: model_defs fixture_defs)
  from handleMessage_catches [of "[jump_wait_command]" viewer1_jump TypeError] h
  show ?thesis by (simp add: prod_eq_iff)
qed


section \<open>Properties of the chat connection\<close>

text \<open>The parameter list of a frame is never empty, so the classifier's \<^verbatim>\<open>params[0]\<close> is safe.\<close>

lemma split_sp_nonempty: "split_sp b \<noteq> []"
  by (induction b) (auto split: list.splits)

lemma frame_of_params: "params (frame_of s m) \<noteq> []"
  by (simp add: frame_of_def split_sp_nonempty)





text \<open>The receive loop: bytes are collected until a call of \<^verbatim>\<open>recv\<close> ends the loop.\<close>

lemma recv_loop_data:
  "\<forall>d \<in> set ds. d \<noteq> [] \<Longrightarrow>
   recv_loop buf (map Recv ds @- rs) = recv_loop (buf @ concat ds) rs"
proof (induction ds arbitrary: buf)
  case Nil
  show ?case by simp
next
  case (Cons d ds)
  then have "d \<noteq> []" and "\<forall>d \<in> set ds. d \<noteq> []" by simp_all
  then show ?case
    using Cons.IH [of "buf @ d"]
    by (subst recv_loop.simps) simp
qed



lemma recv_loop_timeout: "recv_loop buf (Recv_Timeout ## rs) = Some (Drained buf, rs)"
  by (subst recv_loop.simps) simp

text \<open>A poll that reads bytes once parses those bytes.\<close>

lemma poll_one_read:
  assumes "recvs w = Recv A ## Recv_Timeout ## rs" and "A \<noteq> []"
  shows "f_receiveAndParseData (self, w) = Some (parse_buffer A (self, w\<lparr> recvs := rs \<rparr>))"
proof -
  have "recv_loop [] (recvs w) = Some (Drained A, rs)"
    using assms recv_loop_data [of "[A]" "[]" "Recv_Timeout ## rs"]
    by (simp add: recv_loop_timeout)
  then show ?thesis by (simp add: f_receiveAndParseData_def)
qed

text \<open>What a reconnect does: it sleeps for the delay, then connects anew.\<close>

lemma f_reconnect_effect:
  "f_reconnect d (self, w) = (self', w') \<Longrightarrow>
     out w' = out w @ [Sleep d] @ (if sock self then [Sock_Close] else [])
               @ [Print_Connecting, Sock_Connect ''irc.chat.twitch.tv'' 6667, Print_Connected,
                  Sock_Send (''PASS asdf'' @ CRLF @ ''NICK justinfan''
                             @ format_i (shd (randoms w)) @ CRLF),
                  Sock_SetTimeout (1 / 60)]
     \<and> sock self' \<and> partial self' = PBytes [] \<and> \<not> login_ok self'
     \<and> channel self' = py_lower (channel self) \<and> login_timestamp self' = shd (clock w)"
  by (auto simp: f_reconnect_def f_connect_def emit_def random_randint_def time_time_def Let_def)





text \<open>
  Claim C1 on the code. The parser resets \<open>partial\<close> with \<^verbatim>\<open>self.partial = []\<close>, a
  list. After a frame has been put together from two reads, \<open>partial\<close> is that empty
  list; the next frame that arrives in two reads is first stored into it as integers, and
  the second read then raises \<^verbatim>\<open>TypeError\<close> at \<^verbatim>\<open>self.partial + l_buffer\<close>. Four
  polls are shown: the first two put one frame together, the next two split a second
  frame, and the last call raises. With the second frame received in one read, the third
  poll returns it.
\<close>

theorem partial_list_breaks_reassembly:
  "polls 4 (logged_in,
            world_of [Recv (''PING :tmi.twitch.tv'' @ CRLF @ ''PI''), Recv_Timeout,
                      Recv (''NG :tmi.twitch.tv'' @ CRLF), Recv_Timeout,
                      Recv ''PING :tmi'', Recv_Timeout,
                      Recv (''.twitch.tv'' @ CRLF), Recv_Timeout] 0)
     = Some [Inr [ping_frame], Inr [ping_frame], Inr [], Inl TypeError]
   \<and> polls 3 (logged_in,
              world_of [Recv (''PING :tmi.twitch.tv'' @ CRLF @ ''PI''), Recv_Timeout,
                        Recv (''NG :tmi.twitch.tv'' @ CRLF), Recv_Timeout,
                        Recv (''PING :tmi'' @ ''.twitch.tv'' @ CRLF), Recv_Timeout] 0)
     = Some [Inr [ping_frame], Inr [ping_frame], Inr [ping_frame]]"
  by (simp add: eval_nat_numeral model_defs fixture_defs)

section \<open>Properties of the scheduling loop\<close>










text \<open>
  The condition of C10 holds in particular whenever the elapsed time is at least the
  (positive) rate.
\<close>

lemma overrun_when_elapsed_exceeds_rate:
  assumes "0 < G_MESSAGE_RATE cfg" and "G_MESSAGE_RATE cfg \<le> t1 - l"
  shows "release_fraction cfg t1 (Some l) = Inr ((t1 - l) / G_MESSAGE_RATE cfg)
         \<and> int (length q) \<le> py_int ((t1 - l) / G_MESSAGE_RATE cfg * real (length q))"
proof -
  define r where "r = (t1 - l) / G_MESSAGE_RATE cfg"
  define x where "x = r * real (length q)"
  have r1: "1 \<le> r" using assms by (simp add: r_def)
  then have "1 * real (length q) \<le> r * real (length q)"
    by (intro mult_right_mono) simp_all
  then have le: "real (length q) \<le> x" by (simp add: x_def)
  then have "int (length q) \<le> \<lfloor>x\<rfloor>"
    by (simp add: le_floor_iff)
  moreover have "0 \<le> x" using le by (rule order_trans [rotated]) simp
  ultimately have "int (length q) \<le> py_int x" by (simp add: py_int_def)
  moreover have "release_fraction cfg t1 (Some l) = Inr r"
    using assms(1) by (simp add: release_fraction_def r_def)
  ultimately show ?thesis by (simp add: x_def r_def)
qed

text \<open>
  Claim C6. When the configured maximum \<open>N\<close> is positive and the backlog with the new
  events appended is longer than \<open>N\<close>, the backlog after the enqueue has length exactly
  \<open>N\<close> and is the last \<open>N\<close> entries of the appended backlog, in their order.
\<close>

theorem enqueue_keeps_most_recent:
  assumes "0 < G_MAX_QUEUE_LENGTH cfg" and "new \<noteq> []"
    and "G_MAX_QUEUE_LENGTH cfg < int (length (q @ new))"
  shows "length (enqueue cfg new q) = nat (G_MAX_QUEUE_LENGTH cfg) \<and>
         enqueue cfg new q = drop (length (q @ new) - nat (G_MAX_QUEUE_LENGTH cfg)) (q @ new)"
proof -
  define xs where "xs = q @ new"
  define N where "N = G_MAX_QUEUE_LENGTH cfg"
  have N: "0 < N" "N < int (length xs)" using assms(1,3) by (simp_all add: xs_def N_def)
  then have idx: "py_slice_index xs (- N) = length xs - nat N"
    by (simp add: py_slice_index_def Let_def)
  have e: "enqueue cfg new q = drop (length xs - nat N) xs"
    using assms(2) by (simp add: enqueue_def py_slice_from_def idx flip: xs_def N_def)
  have "length (drop (length xs - nat N) xs) = nat N"
    using N by simp
  with e have l: "length (enqueue cfg new q) = nat N" by simp
  from l e show ?thesis unfolding xs_def N_def by (rule conjI)
qed

text \<open>The scenario of the specification: 25 events arrive, the maximum is 20.\<close>

theorem enqueue_keeps_most_recent_witness:
  "0 < G_MAX_QUEUE_LENGTH source_config \<and> [0..<25] \<noteq> []
   \<and> G_MAX_QUEUE_LENGTH source_config < int (length ([] @ [0..<25]))
   \<and> length (enqueue source_config [0..<25] []) = 20
   \<and> enqueue source_config [0..<25] [] = [5..<25]"
  using enqueue_keeps_most_recent [of source_config "[0..<25]" "[]"]
  by (simp add: source_config_def)

text \<open>
  Claim C3. The guard of the dispatch pass is \<^verbatim>\<open>len(l_activeTasks) <= G_MAX_WORKERS\<close>,
  so with exactly \<open>G_MAX_WORKERS\<close> unfinished tasks one more message is submitted and
  no warning is printed: 101 tasks are active under a cap of 100.
\<close>

theorem dispatch_at_cap_submits:
  "dispatch source_config 0 [''!jump''] (replicate 100 (Future ''!left''), [])
     = (replicate 100 (Future ''!left'') @ [Future ''!jump''], [])
   \<and> int (length (fst (dispatch source_config 0 [''!jump'']
                          (replicate 100 (Future ''!left''), []))))
       > G_MAX_WORKERS source_config"
  by (simp add: source_config_def)

text \<open>
  What the guard does ensure: a pass that starts with at most \<open>G_MAX_WORKERS + 1\<close>
  tasks ends with at most that many, and beyond the guard a message is dropped with a
  warning, the task list unchanged.
\<close>

lemma dispatch_bound:
  "0 \<le> G_MAX_WORKERS cfg \<Longrightarrow> int (length (fst st)) \<le> G_MAX_WORKERS cfg + 1
     \<Longrightarrow> int (length (fst (dispatch cfg qlen ms st))) \<le> G_MAX_WORKERS cfg + 1"
proof (induction ms arbitrary: st)
  case Nil
  then show ?case by (cases st) simp
next
  case (Cons m ms)
  obtain ts wl where st: "st = (ts, wl)" by (cases st)
  show ?case
  proof (cases "int (length ts) \<le> G_MAX_WORKERS cfg")
    case True
    then have "int (length (fst (ts @ [Future m], wl))) \<le> G_MAX_WORKERS cfg + 1" by simp
    from Cons.IH [OF Cons.prems(1) this] True show ?thesis by (simp add: st)
  next
    case False
    with Cons.IH [OF Cons.prems(1), of "(ts, wl @ [Warning (length ts) (G_MAX_WORKERS cfg) qlen])"]
      Cons.prems(2) show ?thesis by (simp add: st)
  qed
qed

lemma dispatch_above_cap_drops:
  "G_MAX_WORKERS cfg < int (length ts)
     \<Longrightarrow> dispatch cfg qlen [m] (ts, wl)
           = (ts, wl @ [Warning (length ts) (G_MAX_WORKERS cfg) qlen])"
  by simp

end
